theory Spec2Isabelle
  imports Main
begin

section \<open>The order tracking store (frontend/src/store/orderStore.js)\<close>

subsection \<open>Data\<close>

text \<open>
  An order is the JavaScript object returned by the trade service. The store reads two
  of its properties only, \<open>id\<close> and \<open>status\<close>; every other property
  (quantity_filled, parent_order_id, exchange, ...) is carried along unread, and is the
  field \<open>payload\<close> of an arbitrary type here. The property \<open>id\<close> is the field
  \<open>order_id\<close>, since \<open>id\<close> is the identity function of HOL.
\<close>

record 'p order =
  order_id :: string
  status :: string
  payload :: 'p

text \<open>
  One entry of the array that \<open>Promise.allSettled\<close> resolves to. A fulfilled entry
  holds the HTTP response; its \<open>data\<close> property is the body, which is an order, or
  \<open>null\<close>/\<open>undefined\<close> (\<open>None\<close>) when the response has no body. A rejected entry
  holds the reason.
\<close>

datatype 'p result = Fulfilled "'p order option" | Rejected string

datatype error = TypeError

text \<open>
  The state of the store (\<open>orders\<close>, \<open>trackedOrderIds\<close>, \<open>pollingInterval\<close>) together
  with the part of the host that the store acts on: the interval timers that are live
  (\<open>timers\<close>), the last timer handle the host has given out (\<open>last_handle\<close>), the
  batches of status requests whose \<open>Promise.allSettled\<close> has not resolved yet, each as
  the ids it asked for (\<open>inflight\<close>), and every status request issued so far, in order
  (\<open>sent\<close>).
\<close>

record 'p world =
  orders :: "'p order list"
  trackedOrderIds :: "string set"
  pollingInterval :: "nat option"
  timers :: "nat list"
  last_handle :: nat
  inflight :: "string list list"
  sent :: "string list"

definition initial :: "'p world" where
  "initial = \<lparr>orders = [], trackedOrderIds = {}, pollingInterval = None,
     timers = [], last_handle = 0, inflight = [], sent = []\<rparr>"

subsection \<open>The host's timers\<close>

text \<open>
  \<open>setInterval\<close> returns a handle that is an integer greater than zero and differs
  from every handle given out before; \<open>clearInterval\<close> ends the timer with the given
  handle. \<open>if (pollingInterval)\<close> tests the handle for truthiness: \<open>null\<close> and \<open>0\<close>
  are falsy.
\<close>

definition setInterval :: "'p world \<Rightarrow> nat \<times> 'p world" where
  "setInterval w =
     (let h = Suc (last_handle w)
      in (h, w\<lparr>timers := timers w @ [h], last_handle := h\<rparr>))"

definition clearInterval :: "nat \<Rightarrow> 'p world \<Rightarrow> 'p world" where
  "clearInterval h w = w\<lparr>timers := removeAll h (timers w)\<rparr>"

fun truthy :: "nat option \<Rightarrow> bool" where
  "truthy None = False"
| "truthy (Some h) = (h \<noteq> 0)"

subsection \<open>The actions of the store\<close>

definition startPolling :: "'p world \<Rightarrow> 'p world" where
  "startPolling w =
     (if truthy (pollingInterval w) then w
      else (case setInterval w of
              (interval, w') \<Rightarrow> w'\<lparr>pollingInterval := Some interval\<rparr>))"

definition stopPolling :: "'p world \<Rightarrow> 'p world" where
  "stopPolling w =
     (if truthy (pollingInterval w)
      then (clearInterval (the (pollingInterval w)) w)\<lparr>pollingInterval := None\<rparr>
      else w)"

definition addOrder :: "'p order \<Rightarrow> 'p world \<Rightarrow> 'p world" where
  "addOrder newOrder w =
     startPolling
       (w\<lparr>orders :=
            (if \<not> list_ex (\<lambda>o'. order_id o' = order_id newOrder) (orders w)
             then orders w @ [newOrder]
             else orders w)\<rparr>)"

definition isTerminal :: "string \<Rightarrow> bool" where
  "isTerminal s = List.member [''FILLED'', ''CANCELED'', ''REJECTED'', ''ERROR''] s"

definition activeOrders :: "'p world \<Rightarrow> 'p order list" where
  "activeOrders w = filter (\<lambda>o'. \<not> isTerminal (status o')) (orders w)"

text \<open>The ids that the batch of status requests asks for, one request per entry.\<close>

definition updatePromises :: "'p world \<Rightarrow> string list" where
  "updatePromises w = map order_id (activeOrders w)"

text \<open>
  \<open>pollOrders\<close> up to its \<open>await\<close>: with no active order it stops the poller and
  returns; otherwise it issues the batch, which stays in flight until it settles.
\<close>

definition pollOrders :: "'p world \<Rightarrow> 'p world" where
  "pollOrders w =
     (if length (activeOrders w) = 0 then stopPolling w
      else w\<lparr>inflight := inflight w @ [updatePromises w],
             sent := sent w @ updatePromises w\<rparr>)"

text \<open>\<open>Array.prototype.findIndex\<close>; \<open>None\<close> is its \<open>-1\<close>.\<close>

fun findIndex :: "('a \<Rightarrow> bool) \<Rightarrow> 'a list \<Rightarrow> nat option" where
  "findIndex p [] = None"
| "findIndex p (x # xs) = (if p x then Some 0 else map_option Suc (findIndex p xs))"

text \<open>
  The body of the \<open>results.forEach\<close> callback, on the draft. Reading \<open>updatedOrder.id\<close>
  of a body that is \<open>null\<close> or \<open>undefined\<close> throws a TypeError. A rejected entry is only
  logged.
\<close>

fun applyResult :: "'p order list \<Rightarrow> 'p result \<Rightarrow> error + 'p order list" where
  "applyResult draft (Fulfilled None) = Inl TypeError"
| "applyResult draft (Fulfilled (Some updatedOrder)) =
     (case findIndex (\<lambda>o'. order_id o' = order_id updatedOrder) draft of
        Some orderIndex \<Rightarrow> Inr (draft[orderIndex := updatedOrder])
      | None \<Rightarrow> Inr draft)"
| "applyResult draft (Rejected reason) = Inr draft"

fun forEach :: "'p order list \<Rightarrow> 'p result list \<Rightarrow> error + 'p order list" where
  "forEach draft [] = Inr draft"
| "forEach draft (r # rs) =
     (case applyResult draft r of
        Inl e \<Rightarrow> Inl e
      | Inr draft' \<Rightarrow> forEach draft' rs)"

text \<open>
  \<open>pollOrders\<close> after its \<open>await\<close>: the recipe runs on a draft of the state the store
  has when the batch settles. An exception thrown in the recipe leaves the state as it
  was and is caught and logged by the \<open>catch\<close>.
\<close>

definition pollOrders_settled :: "'p result list \<Rightarrow> 'p world \<Rightarrow> 'p world" where
  "pollOrders_settled results w =
     (case forEach (orders w) results of
        Inr draft \<Rightarrow> w\<lparr>orders := draft\<rparr>
      | Inl e \<Rightarrow> w)"

subsection \<open>What can happen to the store\<close>

text \<open>
  The callers of the store and the host: \<open>addOrder\<close> (OrderPanel), \<open>startPolling\<close>
  (TradesPanel, on mount) and \<open>stopPolling\<close> are called from outside; a live timer
  fires \<open>pollOrders\<close>; a batch in flight settles with one result per request.
\<close>

datatype 'p event =
    AddOrder "'p order"
  | StartPolling
  | StopPolling
  | Tick nat
  | Settle nat "'p result list"

fun enabled :: "'p event \<Rightarrow> 'p world \<Rightarrow> bool" where
  "enabled (Tick h) w = (h \<in> set (timers w))"
| "enabled (Settle n results) w =
     (n < length (inflight w) \<and> length results = length (inflight w ! n))"
| "enabled (AddOrder newOrder) w = True"
| "enabled StartPolling w = True"
| "enabled StopPolling w = True"

fun fire :: "'p event \<Rightarrow> 'p world \<Rightarrow> 'p world" where
  "fire (AddOrder newOrder) w = addOrder newOrder w"
| "fire StartPolling w = startPolling w"
| "fire StopPolling w = stopPolling w"
| "fire (Tick h) w = pollOrders w"
| "fire (Settle n results) w =
     pollOrders_settled results
       (w\<lparr>inflight := take n (inflight w) @ drop (Suc n) (inflight w)\<rparr>)"

fun run :: "'p event list \<Rightarrow> 'p world \<Rightarrow> 'p world option" where
  "run [] w = Some w"
| "run (e # es) w = (if enabled e w then run es (fire e w) else None)"

subsection \<open>Vocabulary for the properties\<close>


text \<open>The id of the order that a result carries, if it carries one.\<close>

fun result_id :: "'p result \<Rightarrow> string option" where
  "result_id (Fulfilled (Some updatedOrder)) = Some (order_id updatedOrder)"
| "result_id (Fulfilled None) = None"
| "result_id (Rejected reason) = None"


text \<open>
  A result reverts the order \<open>k\<close> when it carries a record for \<open>k\<close> whose status is
  not terminal; a settling batch reverts \<open>k\<close> when one of its results does.
\<close>

fun reverting :: "string \<Rightarrow> 'p result \<Rightarrow> bool" where
  "reverting k (Fulfilled (Some updatedOrder)) =
     (order_id updatedOrder = k \<and> \<not> isTerminal (status updatedOrder))"
| "reverting k (Fulfilled None) = False"
| "reverting k (Rejected reason) = False"

fun reverts :: "string \<Rightarrow> 'p event \<Rightarrow> bool" where
  "reverts k (Settle n results) = list_ex (reverting k) results"
| "reverts k (AddOrder newOrder) = False"
| "reverts k StartPolling = False"
| "reverts k StopPolling = False"
| "reverts k (Tick h) = False"

text \<open>The events that call \<open>startPolling\<close>.\<close>

fun restarts :: "'p event \<Rightarrow> bool" where
  "restarts (AddOrder newOrder) = True"
| "restarts StartPolling = True"
| "restarts StopPolling = False"
| "restarts (Tick h) = False"
| "restarts (Settle n results) = False"

text \<open>The timer handle of the store and the live timers of the host agree.\<close>

fun one_timer :: "nat option \<Rightarrow> nat list \<Rightarrow> bool" where
  "one_timer None ts = (ts = [])"
| "one_timer (Some h) ts = (ts = [h] \<and> 0 < h)"

text \<open>Sample orders; the payload is the quantity filled.\<close>

definition A_submitted :: "nat order" where
  "A_submitted = \<lparr>order_id = ''A'', status = ''SUBMITTED'', payload = 0\<rparr>"

definition A_filled :: "nat order" where
  "A_filled = \<lparr>order_id = ''A'', status = ''FILLED'', payload = 10\<rparr>"

definition B_submitted :: "nat order" where
  "B_submitted = \<lparr>order_id = ''B'', status = ''SUBMITTED'', payload = 0\<rparr>"

definition B_filled :: "nat order" where
  "B_filled = \<lparr>order_id = ''B'', status = ''FILLED'', payload = 5\<rparr>"

section \<open>Basic facts\<close>

lemma run_append:
  "run (es @ es') w = (case run es w of None \<Rightarrow> None | Some w' \<Rightarrow> run es' w')"
  by (induction es arbitrary: w) auto

lemma run_snoc:
  "run (es @ [e]) w = Some w' \<longleftrightarrow>
     (\<exists>v. run es w = Some v \<and> enabled e v \<and> w' = fire e v)"
  by (auto simp: run_append split: option.splits)

subsection \<open>findIndex and the merge\<close>

lemma findIndex_Some:
  "findIndex p xs = Some i \<Longrightarrow> i < length xs \<and> p (xs ! i) \<and> (\<forall>j<i. \<not> p (xs ! j))"
proof (induction xs arbitrary: i)
  case Nil
  then show ?case by simp
next
  case (Cons x xs)
  show ?case
  proof (cases "p x")
    case True
    with Cons.prems show ?thesis by simp
  next
    case False
    with Cons.prems obtain k where k: "findIndex p xs = Some k" "i = Suc k"
      by auto
    from Cons.IH [OF k(1)] False k(2) show ?thesis
      by (auto simp: less_Suc_eq_0_disj)
  qed
qed

lemma findIndex_None: "findIndex p xs = None \<longleftrightarrow> (\<forall>x\<in>set xs. \<not> p x)"
  by (induction xs) auto

lemma findIndex_by_id:
  "findIndex (\<lambda>o'. order_id o' = k) draft = findIndex (\<lambda>x. x = k) (map order_id draft)"
  by (induction draft) auto

lemma applyResult_cases:
  "applyResult draft r = Inl TypeError \<and> r = Fulfilled None
   \<or> applyResult draft r = Inr draft \<and> (\<forall>i<length draft. result_id r \<noteq> Some (order_id (draft ! i)))
   \<or> (\<exists>u i. r = Fulfilled (Some u) \<and> i < length draft \<and> order_id (draft ! i) = order_id u
        \<and> findIndex (\<lambda>o'. order_id o' = order_id u) draft = Some i
        \<and> applyResult draft r = Inr (draft[i := u]))"
proof (cases r)
  case (Rejected reason)
  then show ?thesis by simp
next
  case (Fulfilled body)
  show ?thesis
  proof (cases body)
    case None
    with Fulfilled show ?thesis by simp
  next
    case (Some u)
    show ?thesis
    proof (cases "findIndex (\<lambda>o'. order_id o' = order_id u) draft")
      case None
      then have "\<forall>i<length draft. order_id (draft ! i) \<noteq> order_id u"
        by (simp add: findIndex_None)
      with None Fulfilled Some show ?thesis by auto
    next
      case (Some i)
      from findIndex_Some [OF Some] Some Fulfilled \<open>body = Some u\<close> show ?thesis
        by simp
    qed
  qed
qed

lemma applyResult_ids:
  assumes "applyResult draft r = Inr draft'"
  shows "map order_id draft' = map order_id draft"
  using applyResult_cases [of draft r] assms
  by (auto simp: map_update list_update_same_conv)

lemma forEach_ids:
  "forEach draft rs = Inr draft' \<Longrightarrow> map order_id draft' = map order_id draft"
proof (induction rs arbitrary: draft)
  case Nil
  then show ?case by simp
next
  case (Cons r rs)
  then show ?case
    by (auto split: sum.splits dest: applyResult_ids)
qed

lemma forEach_append:
  "forEach draft (rs @ rs') =
     (case forEach draft rs of Inl e \<Rightarrow> Inl e | Inr d \<Rightarrow> forEach d rs')"
  by (induction rs arbitrary: draft) (auto split: sum.splits)

lemma pollOrders_settled_ids:
  "map order_id (orders (pollOrders_settled rs w)) = map order_id (orders w)"
  by (auto simp: pollOrders_settled_def split: sum.splits dest: forEach_ids)

subsection \<open>What each action does to each part of the state\<close>

lemma orders_startPolling: "orders (startPolling w) = orders w"
  by (simp add: startPolling_def setInterval_def Let_def)

lemma orders_stopPolling: "orders (stopPolling w) = orders w"
  by (simp add: stopPolling_def clearInterval_def)

lemma orders_pollOrders: "orders (pollOrders w) = orders w"
  by (simp add: pollOrders_def orders_stopPolling)

lemma orders_addOrder:
  "orders (addOrder n w) =
     (if order_id n \<in> set (map order_id (orders w)) then orders w else orders w @ [n])"
proof -
  have "list_ex (\<lambda>o'. order_id o' = order_id n) (orders w)
          \<longleftrightarrow> order_id n \<in> set (map order_id (orders w))"
    unfolding list_ex_iff set_map image_iff by metis
  then show ?thesis
    by (simp add: addOrder_def orders_startPolling)
qed

lemma ids_fire:
  "map order_id (orders (fire e w)) =
     (case e of
        AddOrder n \<Rightarrow>
          (if order_id n \<in> set (map order_id (orders w)) then map order_id (orders w)
           else map order_id (orders w) @ [order_id n])
      | _ \<Rightarrow> map order_id (orders w))"
  by (cases e)
     (simp_all add: orders_addOrder orders_startPolling orders_stopPolling
        orders_pollOrders pollOrders_settled_ids)

lemma distinct_fire:
  "distinct (map order_id (orders w)) \<Longrightarrow> distinct (map order_id (orders (fire e w)))"
  using ids_fire [of e w] by (cases e) auto

lemma distinct_run:
  "run es w = Some w' \<Longrightarrow> distinct (map order_id (orders w))
     \<Longrightarrow> distinct (map order_id (orders w'))"
proof (induction es arbitrary: w)
  case Nil
  then show ?case by simp
next
  case (Cons e es)
  from Cons.prems(1) have "run es (fire e w) = Some w'"
    by (simp split: if_splits)
  then show ?case
    using Cons.IH distinct_fire [OF Cons.prems(2)] by blast
qed

lemma distinct_reachable:
  "run es initial = Some w \<Longrightarrow> distinct (map order_id (orders w))"
  by (erule distinct_run) (simp add: initial_def)

subsection \<open>The timer\<close>

lemma one_timer_startPolling:
  "one_timer (pollingInterval w) (timers w)
     \<Longrightarrow> one_timer (pollingInterval (startPolling w)) (timers (startPolling w))
         \<and> pollingInterval (startPolling w) \<noteq> None"
  by (cases "pollingInterval w") (auto simp: startPolling_def setInterval_def Let_def)

lemma one_timer_stopPolling:
  "one_timer (pollingInterval w) (timers w)
     \<Longrightarrow> pollingInterval (stopPolling w) = None \<and> timers (stopPolling w) = []"
  by (cases "pollingInterval w") (auto simp: stopPolling_def clearInterval_def)

lemma timer_addOrder:
  "pollingInterval (addOrder n w) = pollingInterval (startPolling w)
   \<and> timers (addOrder n w) = timers (startPolling w)"
  by (simp add: addOrder_def startPolling_def setInterval_def Let_def)

lemma timer_settled:
  "pollingInterval (pollOrders_settled rs w) = pollingInterval w
   \<and> timers (pollOrders_settled rs w) = timers w"
  by (simp add: pollOrders_settled_def split: sum.splits)

lemma one_timer_fire:
  assumes "one_timer (pollingInterval w) (timers w)"
  shows "one_timer (pollingInterval (fire e w)) (timers (fire e w))"
proof (cases e)
  case (AddOrder n)
  with one_timer_startPolling [OF assms] show ?thesis
    by (simp add: timer_addOrder)
next
  case StartPolling
  with one_timer_startPolling [OF assms] show ?thesis by simp
next
  case StopPolling
  with one_timer_stopPolling [OF assms] show ?thesis by simp
next
  case (Tick h)
  with one_timer_stopPolling [OF assms] assms show ?thesis
    by (simp add: pollOrders_def)
next
  case (Settle n rs)
  with assms show ?thesis by (simp add: timer_settled)
qed

lemma one_timer_run:
  "run es w = Some w' \<Longrightarrow> one_timer (pollingInterval w) (timers w)
     \<Longrightarrow> one_timer (pollingInterval w') (timers w')"
proof (induction es arbitrary: w)
  case Nil
  then show ?case by simp
next
  case (Cons e es)
  from Cons.prems(1) have "run es (fire e w) = Some w'"
    by (simp split: if_splits)
  then show ?case
    using Cons.IH one_timer_fire [OF Cons.prems(2)] by blast
qed

lemma one_timer_reachable:
  "run es initial = Some w \<Longrightarrow> one_timer (pollingInterval w) (timers w)"
  by (erule one_timer_run) (simp add: initial_def)

lemma startPolling_running:
  "one_timer (pollingInterval w) (timers w) \<Longrightarrow> pollingInterval w \<noteq> None
     \<Longrightarrow> startPolling w = w"
  by (cases "pollingInterval w") (auto simp: startPolling_def)

lemma stopPolling_idle: "pollingInterval w = None \<Longrightarrow> stopPolling w = w"
  by (simp add: stopPolling_def)

subsection \<open>Sequences of addOrder\<close>

lemma fold_addOrder_ids:
  "distinct (map order_id (orders w)) \<Longrightarrow>
     distinct (map order_id (orders (fold addOrder ns w)))
     \<and> set (map order_id (orders (fold addOrder ns w)))
         = set (map order_id (orders w)) \<union> set (map order_id ns)"
proof (induction ns arbitrary: w)
  case Nil
  then show ?case by simp
next
  case (Cons n ns)
  have d: "distinct (map order_id (orders (addOrder n w)))"
    using Cons.prems by (simp add: orders_addOrder)
  have s: "set (map order_id (orders (addOrder n w)))
             = insert (order_id n) (set (map order_id (orders w)))"
    by (auto simp: orders_addOrder)
  from Cons.IH [OF d] s show ?case by auto
qed

lemma length_fold_addOrder:
  "length (orders (fold addOrder ns initial)) = card (set (map order_id ns))"
proof -
  have "distinct (map order_id (orders (initial :: 'a world)))"
    by (simp add: initial_def)
  from fold_addOrder_ids [OF this, of ns]
  have d: "distinct (map order_id (orders (fold addOrder ns initial)))"
    and s: "set (map order_id (orders (fold addOrder ns initial))) = set (map order_id ns)"
    by (simp_all add: initial_def)
  from distinct_card [OF d] s show ?thesis by simp
qed

section \<open>Properties of the store\<close>

subsection \<open>One record per id\<close>

text \<open>
  C1. In every state the store can reach from its initial state, by any sequence of
  addOrder calls, startPolling and stopPolling calls, poll ticks and settled batches, the
  cache holds at most one record per order id. An addOrder whose id is already cached
  leaves the order list as it is, and after any sequence of addOrder calls on the initial
  store the cache holds as many records as the sequence has distinct ids.
\<close>

theorem cache_has_one_record_per_id:
  assumes "run evs initial = Some w"
  shows "distinct (map order_id (orders w))
       \<and> (order_id n \<in> set (map order_id (orders w)) \<longrightarrow> orders (addOrder n w) = orders w)
       \<and> length (orders (fold addOrder ns initial)) = card (set (map order_id ns))"
  using distinct_reachable [OF assms] length_fold_addOrder [of ns]
  by (simp add: orders_addOrder)

theorem cache_has_one_record_per_id_witness:
  "run [AddOrder A_submitted, AddOrder B_filled, AddOrder A_filled, Tick 1,
        Settle 0 [Fulfilled (Some A_filled)]] initial
     = Some \<lparr>orders = [A_filled, B_filled], trackedOrderIds = {}, pollingInterval = Some 1,
         timers = [1], last_handle = 1, inflight = [], sent = [''A'']\<rparr>
   \<and> distinct (map order_id [A_filled, B_filled])
   \<and> order_id A_submitted \<in> set (map order_id [A_filled, B_filled])
   \<and> orders (addOrder A_submitted
        \<lparr>orders = [A_filled, B_filled], trackedOrderIds = {}, pollingInterval = Some 1,
         timers = [1], last_handle = 1, inflight = [], sent = [''A'']\<rparr>) = [A_filled, B_filled]
   \<and> length (orders (fold addOrder [A_submitted, B_filled, A_filled] initial)) = 2
   \<and> card (set (map order_id [A_submitted, B_filled, A_filled])) = 2"
proof -
  have r: "run [AddOrder A_submitted, AddOrder B_filled, AddOrder A_filled, Tick 1,
        Settle 0 [Fulfilled (Some A_filled)]] initial
     = Some \<lparr>orders = [A_filled, B_filled], trackedOrderIds = {}, pollingInterval = Some 1,
         timers = [1], last_handle = 1, inflight = [], sent = [''A'']\<rparr>"
    by code_simp
  have c: "card (set (map order_id [A_submitted, B_filled, A_filled])) = 2"
    by code_simp
  have m: "order_id A_submitted \<in> set (map order_id [A_filled, B_filled])"
    by code_simp
  from cache_has_one_record_per_id [OF r, of A_submitted "[A_submitted, B_filled, A_filled]"] r c m
  show ?thesis by (simp add: A_submitted_def A_filled_def B_filled_def)
qed

subsection \<open>Starting and stopping twice\<close>

lemma startPolling_twice:
  "one_timer (pollingInterval w) (timers w) \<Longrightarrow> startPolling (startPolling w) = startPolling w"
  using one_timer_startPolling [of w] startPolling_running [of "startPolling w"] by blast

lemma stopPolling_twice:
  "one_timer (pollingInterval w) (timers w) \<Longrightarrow> stopPolling (stopPolling w) = stopPolling w"
  using one_timer_stopPolling [of w] stopPolling_idle [of "stopPolling w"] by blast

text \<open>
  C8. In every reachable state the host has at most one live timer, and it is the one
  whose handle the store holds. Calling startPolling while a handle is set changes
  nothing, so no second timer is created; calling stopPolling while no handle is set
  changes nothing; a second startPolling or stopPolling in a row changes nothing.
\<close>

theorem polling_guards_idempotent:
  assumes "run evs initial = Some w"
  shows "one_timer (pollingInterval w) (timers w)
       \<and> length (timers w) \<le> 1
       \<and> (pollingInterval w \<noteq> None \<longrightarrow> startPolling w = w)
       \<and> (pollingInterval w = None \<longrightarrow> stopPolling w = w)
       \<and> startPolling (startPolling w) = startPolling w
       \<and> stopPolling (stopPolling w) = stopPolling w"
proof -
  have t: "one_timer (pollingInterval w) (timers w)"
    by (rule one_timer_reachable [OF assms])
  then have "length (timers w) \<le> 1"
    by (cases "pollingInterval w") simp_all
  with t startPolling_running [OF t] stopPolling_idle [of w]
    startPolling_twice [OF t] stopPolling_twice [OF t]
  show ?thesis by blast
qed

theorem polling_guards_idempotent_witness:
  "run [AddOrder A_submitted] initial
     = Some \<lparr>orders = [A_submitted], trackedOrderIds = {}, pollingInterval = Some 1,
         timers = [1], last_handle = 1, inflight = [], sent = []\<rparr>
   \<and> startPolling \<lparr>orders = [A_submitted], trackedOrderIds = {}, pollingInterval = Some 1,
         timers = [1], last_handle = 1, inflight = [], sent = []\<rparr>
     = \<lparr>orders = [A_submitted], trackedOrderIds = {}, pollingInterval = Some 1,
         timers = [1], last_handle = 1, inflight = [], sent = []\<rparr>
   \<and> run [AddOrder B_filled, Tick 1] initial
     = Some \<lparr>orders = [B_filled], trackedOrderIds = {}, pollingInterval = None,
         timers = [], last_handle = 1, inflight = [], sent = []\<rparr>
   \<and> stopPolling \<lparr>orders = [B_filled], trackedOrderIds = {}, pollingInterval = None,
         timers = [], last_handle = 1, inflight = [], sent = []\<rparr>
     = \<lparr>orders = [B_filled], trackedOrderIds = {}, pollingInterval = None,
         timers = [], last_handle = 1, inflight = [], sent = []\<rparr>"
proof -
  have r1: "run [AddOrder A_submitted] initial
     = Some \<lparr>orders = [A_submitted], trackedOrderIds = {}, pollingInterval = Some 1,
         timers = [1], last_handle = 1, inflight = [], sent = []\<rparr>"
    by code_simp
  have r2: "run [AddOrder B_filled, Tick 1] initial
     = Some \<lparr>orders = [B_filled], trackedOrderIds = {}, pollingInterval = None,
         timers = [], last_handle = 1, inflight = [], sent = []\<rparr>"
    by code_simp
  from polling_guards_idempotent [OF r1] polling_guards_idempotent [OF r2] r1 r2
  show ?thesis by simp
qed

subsection \<open>Responses for orders that are not cached\<close>

lemma applyResult_unknown_id:
  "order_id u \<notin> set (map order_id draft) \<Longrightarrow> applyResult draft (Fulfilled (Some u)) = Inr draft"
proof -
  assume "order_id u \<notin> set (map order_id draft)"
  then have "\<forall>x\<in>set draft. order_id x \<noteq> order_id u"
    unfolding set_map by (metis imageI)
  then have "findIndex (\<lambda>o'. order_id o' = order_id u) draft = None"
    by (simp add: findIndex_None)
  then show ?thesis by simp
qed

text \<open>
  C9. A poll tick and the merge of a settled batch leave the list of cached ids as it
  is, in the same order, and so do startPolling and stopPolling. A successful response
  whose id matches no cached record is dropped and the draft is unchanged. addOrder is
  the one action that makes the cache longer: it appends the record when its id is new.
\<close>

theorem poll_keeps_the_cached_ids:
  "map order_id (orders (fire (Tick h) w)) = map order_id (orders w)
   \<and> map order_id (orders (fire (Settle b rs) w)) = map order_id (orders w)
   \<and> map order_id (orders (fire StartPolling w)) = map order_id (orders w)
   \<and> map order_id (orders (fire StopPolling w)) = map order_id (orders w)
   \<and> (order_id u \<notin> set (map order_id draft)
        \<longrightarrow> applyResult draft (Fulfilled (Some u)) = Inr draft)
   \<and> (order_id n \<notin> set (map order_id (orders w))
        \<longrightarrow> orders (fire (AddOrder n) w) = orders w @ [n])"
  using ids_fire [of "Tick h" w] ids_fire [of "Settle b rs" w] ids_fire [of StartPolling w]
    ids_fire [of StopPolling w] applyResult_unknown_id [of u draft] orders_addOrder [of n w]
  by simp

theorem poll_keeps_the_cached_ids_witness:
  "order_id B_filled \<notin> set (map order_id [A_submitted])
   \<and> applyResult [A_submitted] (Fulfilled (Some B_filled)) = Inr [A_submitted]
   \<and> orders (fire (AddOrder B_filled) (initial\<lparr>orders := [A_submitted]\<rparr>)) = [A_submitted, B_filled]
   \<and> map order_id (orders (fire (Settle 0 [Fulfilled (Some A_filled), Fulfilled (Some B_filled)])
        (initial\<lparr>orders := [A_submitted]\<rparr>))) = [''A'']"
proof -
  have m: "order_id B_filled \<notin> set (map order_id [A_submitted])"
    by code_simp
  from poll_keeps_the_cached_ids [of 0 "initial\<lparr>orders := [A_submitted]\<rparr>" 0
      "[Fulfilled (Some A_filled), Fulfilled (Some B_filled)]" B_filled "[A_submitted]" B_filled] m
  show ?thesis by (simp add: A_submitted_def)
qed

subsection \<open>The last write of a batch\<close>

lemma forEach_untouched:
  "forEach d rs = Inr d' \<Longrightarrow> i < length d
     \<Longrightarrow> Some (order_id (d ! i)) \<notin> set (map result_id rs) \<Longrightarrow> d' ! i = d ! i"
proof (induction rs arbitrary: d)
  case Nil
  then show ?case by simp
next
  case (Cons r rs)
  from Cons.prems(1) obtain d1 where d1: "applyResult d r = Inr d1" "forEach d1 rs = Inr d'"
    by (auto split: sum.splits)
  from Cons.prems(3) have nr: "result_id r \<noteq> Some (order_id (d ! i))"
    and nrs: "Some (order_id (d ! i)) \<notin> set (map result_id rs)"
    by auto
  have same: "d1 ! i = d ! i"
    using applyResult_cases [of d r] d1(1) nr Cons.prems(2)
    by (auto simp: nth_list_update)
  have len: "length d1 = length d"
    using applyResult_ids [OF d1(1)] by (metis length_map)
  from Cons.IH [OF d1(2)] same len nrs Cons.prems(2) show ?case by simp
qed

lemma forEach_total:
  "Fulfilled None \<notin> set rs \<Longrightarrow> \<exists>d'. forEach d rs = Inr d'"
proof (induction rs arbitrary: d)
  case Nil
  then show ?case by simp
next
  case (Cons r rs)
  from Cons.prems have "r \<noteq> Fulfilled None" by auto
  with applyResult_cases [of d r] obtain d1 where "applyResult d r = Inr d1" by auto
  with Cons show ?case by simp
qed

lemma forEach_last_write:
  assumes k: "k < length rs" and rk: "rs ! k = Fulfilled (Some u)"
    and fi: "findIndex (\<lambda>o'. order_id o' = order_id u) d = Some i"
    and ok: "forEach d rs = Inr d'"
    and later: "Some (order_id u) \<notin> set (map result_id (drop (Suc k) rs))"
  shows "d' ! i = u"
proof -
  have split: "rs = take k rs @ [Fulfilled (Some u)] @ drop (Suc k) rs"
    using id_take_nth_drop [OF k] rk by simp
  from ok obtain d1 where d1: "forEach d (take k rs) = Inr d1"
    and rest: "forEach d1 ([Fulfilled (Some u)] @ drop (Suc k) rs) = Inr d'"
    by (subst (asm) split) (auto simp: forEach_append split: sum.splits)
  have "map order_id d1 = map order_id d"
    by (rule forEach_ids [OF d1])
  with fi have fi1: "findIndex (\<lambda>o'. order_id o' = order_id u) d1 = Some i"
    by (simp add: findIndex_by_id)
  from findIndex_Some [OF fi1] have i: "i < length d1" by simp
  from rest fi1 have post: "forEach (d1[i := u]) (drop (Suc k) rs) = Inr d'"
    by simp
  from forEach_untouched [OF post, of i] i later show ?thesis by simp
qed

text \<open>
  C3. A successful response whose id matches a cached record overwrites that record as a
  whole: the callback writes the body into the slot that findIndex returns, which is the
  slot of the record with that id, and after the merge that slot holds the body itself,
  every field of it, with nothing kept of the record it replaces. In a batch of several
  results the same holds for each response, as long as the batch holds no response
  without a body (the merge throws on it and nothing is applied) and no later response of
  the batch carries the same id (the last one written wins).
\<close>

theorem successful_response_overwrites:
  assumes "findIndex (\<lambda>o'. order_id o' = order_id u) (orders w) = Some i"
  shows "applyResult (orders w) (Fulfilled (Some u)) = Inr ((orders w)[i := u])
       \<and> i < length (orders w) \<and> order_id (orders w ! i) = order_id u
       \<and> (orders w)[i := u] ! i = u
       \<and> orders (pollOrders_settled [Fulfilled (Some u)] w) = (orders w)[i := u]
       \<and> (k < length rs \<and> rs ! k = Fulfilled (Some u) \<and> Fulfilled None \<notin> set rs
            \<and> Some (order_id u) \<notin> set (map result_id (drop (Suc k) rs))
          \<longrightarrow> orders (pollOrders_settled rs w) ! i = u)"
proof -
  have "orders (pollOrders_settled rs w) ! i = u"
    if k: "k < length rs" and rk: "rs ! k = Fulfilled (Some u)"
      and nb: "Fulfilled None \<notin> set rs"
      and later: "Some (order_id u) \<notin> set (map result_id (drop (Suc k) rs))"
  proof -
    from forEach_total [OF nb] obtain d' where d': "forEach (orders w) rs = Inr d'"
      by blast
    from forEach_last_write [OF k rk assms d' later] d' show ?thesis
      by (simp add: pollOrders_settled_def)
  qed
  with findIndex_Some [OF assms] assms show ?thesis
    by (simp add: pollOrders_settled_def)
qed

theorem successful_response_overwrites_witness:
  "findIndex (\<lambda>o'. order_id o' = order_id B_filled)
        (orders (initial\<lparr>orders := [A_submitted, B_submitted]\<rparr>)) = Some 1
   \<and> applyResult [A_submitted, B_submitted] (Fulfilled (Some B_filled))
       = Inr [A_submitted, B_filled]
   \<and> (1::nat) < length [Rejected ''timeout'', Fulfilled (Some B_filled) :: nat result]
   \<and> [Rejected ''timeout'', Fulfilled (Some B_filled)] ! 1 = Fulfilled (Some B_filled)
   \<and> Fulfilled None \<notin> set [Rejected ''timeout'', Fulfilled (Some B_filled)]
   \<and> Some (order_id B_filled)
        \<notin> set (map result_id (drop (Suc 1) [Rejected ''timeout'', Fulfilled (Some B_filled)]))
   \<and> orders (pollOrders_settled [Rejected ''timeout'', Fulfilled (Some B_filled)]
        (initial\<lparr>orders := [A_submitted, B_submitted]\<rparr>)) ! 1 = B_filled"
proof -
  let ?w = "initial\<lparr>orders := [A_submitted, B_submitted]\<rparr>"
  let ?rs = "[Rejected ''timeout'', Fulfilled (Some B_filled)]"
  have h: "findIndex (\<lambda>o'. order_id o' = order_id B_filled) (orders ?w) = Some 1"
    by (simp add: A_submitted_def B_submitted_def B_filled_def)
  have b: "(1::nat) < length ?rs \<and> ?rs ! 1 = Fulfilled (Some B_filled)
      \<and> Fulfilled None \<notin> set ?rs
      \<and> Some (order_id B_filled) \<notin> set (map result_id (drop (Suc 1) ?rs))"
    by simp
  from successful_response_overwrites [OF h, of 1 ?rs] h b
  show ?thesis by simp
qed

text \<open>
  The overwrite is not unconditional for a batch of several results. A fulfilled response
  without a body in the same batch makes the recipe throw, the draft is discarded, and
  the successful response for order A is not applied: the cache still holds the
  SUBMITTED record. And of two responses of one batch that carry the same id, the cache
  holds the later one.
\<close>

theorem successful_response_lost_with_bodyless_batch_mate:
  "run [AddOrder A_submitted, AddOrder B_submitted, Tick 1] initial
     = Some \<lparr>orders = [A_submitted, B_submitted], trackedOrderIds = {},
         pollingInterval = Some 1, timers = [1], last_handle = 1,
         inflight = [[''A'', ''B'']], sent = [''A'', ''B'']\<rparr>
   \<and> enabled (Settle 0 [Fulfilled (Some A_filled), Fulfilled None])
        \<lparr>orders = [A_submitted, B_submitted], trackedOrderIds = {},
         pollingInterval = Some 1, timers = [1], last_handle = 1,
         inflight = [[''A'', ''B'']], sent = [''A'', ''B'']\<rparr>
   \<and> findIndex (\<lambda>o'. order_id o' = order_id A_filled) [A_submitted, B_submitted] = Some 0
   \<and> forEach [A_submitted, B_submitted] [Fulfilled (Some A_filled), Fulfilled None]
       = Inl TypeError
   \<and> orders (fire (Settle 0 [Fulfilled (Some A_filled), Fulfilled None])
        \<lparr>orders = [A_submitted, B_submitted], trackedOrderIds = {},
         pollingInterval = Some 1, timers = [1], last_handle = 1,
         inflight = [[''A'', ''B'']], sent = [''A'', ''B'']\<rparr>) ! 0 = A_submitted
   \<and> A_submitted \<noteq> A_filled
   \<and> orders (pollOrders_settled
        [Fulfilled (Some A_filled), Fulfilled (Some \<lparr>order_id = ''A'', status = ''CANCELED'', payload = 3\<rparr>)]
        (initial\<lparr>orders := [A_submitted, B_submitted]\<rparr>)) ! 0
       = \<lparr>order_id = ''A'', status = ''CANCELED'', payload = 3\<rparr>"
  by code_simp

subsection \<open>Batches in flight\<close>

lemma orders_fire_Settle:
  "orders (fire (Settle b rs) w) = orders (pollOrders_settled rs w)"
  by (simp add: pollOrders_settled_def split: sum.splits)

lemma inflight_fire:
  "inflight (fire e w) =
     (case e of
        Tick h \<Rightarrow> (if activeOrders w = [] then inflight w else inflight w @ [updatePromises w])
      | Settle b rs \<Rightarrow> take b (inflight w) @ drop (Suc b) (inflight w)
      | _ \<Rightarrow> inflight w)"
  by (cases e)
     (simp_all add: addOrder_def startPolling_def stopPolling_def setInterval_def
        clearInterval_def pollOrders_def pollOrders_settled_def Let_def split: sum.splits)





subsection \<open>Failed fetches\<close>






subsection \<open>Terminal records\<close>

lemma applyResult_terminal:
  assumes "applyResult d r = Inr d'" and "i < length d"
    and "isTerminal (status (d ! i))" and "\<not> reverting (order_id (d ! i)) r"
  shows "isTerminal (status (d' ! i))"
  using applyResult_cases [of d r] assms
  by (auto simp: nth_list_update split: if_splits)

lemma forEach_terminal:
  "forEach d rs = Inr d' \<Longrightarrow> i < length d \<Longrightarrow> isTerminal (status (d ! i))
     \<Longrightarrow> \<not> list_ex (reverting (order_id (d ! i))) rs \<Longrightarrow> isTerminal (status (d' ! i))"
proof (induction rs arbitrary: d)
  case Nil
  then show ?case by simp
next
  case (Cons r rs)
  from Cons.prems(1) obtain d1 where d1: "applyResult d r = Inr d1" "forEach d1 rs = Inr d'"
    by (auto split: sum.splits)
  from Cons.prems(4) have nr: "\<not> reverting (order_id (d ! i)) r"
    and nrs: "\<not> list_ex (reverting (order_id (d ! i))) rs"
    by simp_all
  have t: "isTerminal (status (d1 ! i))"
    by (rule applyResult_terminal [OF d1(1) Cons.prems(2,3) nr])
  have m: "map order_id d1 = map order_id d"
    by (rule applyResult_ids [OF d1(1)])
  then have len: "length d1 = length d"
    by (metis length_map)
  from m Cons.prems(2) len have "order_id (d1 ! i) = order_id (d ! i)"
    by (metis nth_map)
  with Cons.IH [OF d1(2) _ t] len Cons.prems(2) nrs show ?case by simp
qed

lemma nth_orders_addOrder:
  "i < length (orders w) \<Longrightarrow> orders (addOrder n w) ! i = orders w ! i"
  by (simp add: orders_addOrder nth_append)

lemma length_orders_fire: "length (orders w) \<le> length (orders (fire e w))"
proof -
  have "length (map order_id (orders w)) \<le> length (map order_id (orders (fire e w)))"
    unfolding ids_fire by (cases e) simp_all
  then show ?thesis by simp
qed

lemma id_nth_fire:
  assumes "i < length (orders w)"
  shows "order_id (orders (fire e w) ! i) = order_id (orders w ! i)"
proof -
  have "map order_id (orders (fire e w)) ! i = map order_id (orders w) ! i"
    unfolding ids_fire using assms by (cases e) (simp_all add: nth_append)
  with assms length_orders_fire [of w e] show ?thesis by simp
qed

lemma terminal_fire:
  assumes i: "i < length (orders w)" and t: "isTerminal (status (orders w ! i))"
    and nr: "\<not> reverts (order_id (orders w ! i)) e"
  shows "isTerminal (status (orders (fire e w) ! i))"
proof (cases e)
  case (AddOrder n)
  with t nth_orders_addOrder [OF i] show ?thesis by simp
next
  case StartPolling
  with t show ?thesis by (simp add: orders_startPolling)
next
  case StopPolling
  with t show ?thesis by (simp add: orders_stopPolling)
next
  case (Tick h)
  with t show ?thesis by (simp add: orders_pollOrders)
next
  case (Settle b rs)
  with nr have nrs: "\<not> list_ex (reverting (order_id (orders w ! i))) rs" by simp
  have "isTerminal (status (orders (pollOrders_settled rs w) ! i))"
  proof (cases "forEach (orders w) rs")
    case (Inl err)
    with t show ?thesis by (simp add: pollOrders_settled_def)
  next
    case (Inr d')
    from forEach_terminal [OF Inr i t nrs] Inr show ?thesis
      by (simp add: pollOrders_settled_def)
  qed
  with Settle orders_fire_Settle [of b rs w] show ?thesis by simp
qed

text \<open>
  C6. No action of the store changes a status by itself. addOrder, startPolling,
  stopPolling and a poll tick leave every cached record as it is, and a settled batch
  overwrites a record with the server's record of the same id. So a record whose status
  is terminal keeps its slot, its id and a terminal status through every event, unless
  the event is a settled batch with a response that carries a non-terminal status for
  that id.
\<close>

theorem terminal_status_kept_unless_response_reverts:
  assumes "i < length (orders w)" and "isTerminal (status (orders w ! i))"
    and "\<not> reverts (order_id (orders w ! i)) e"
  shows "i < length (orders (fire e w))
       \<and> order_id (orders (fire e w) ! i) = order_id (orders w ! i)
       \<and> isTerminal (status (orders (fire e w) ! i))
       \<and> orders (fire (AddOrder n) w) ! i = orders w ! i
       \<and> orders (fire (Tick h) w) = orders w
       \<and> orders (fire StartPolling w) = orders w
       \<and> orders (fire StopPolling w) = orders w"
  using assms(1) length_orders_fire [of w e] id_nth_fire [OF assms(1), of e]
    terminal_fire [OF assms] nth_orders_addOrder [OF assms(1), of n]
  by (simp add: orders_pollOrders orders_startPolling orders_stopPolling)

theorem terminal_status_kept_unless_response_reverts_witness:
  "(0::nat) < length (orders (initial\<lparr>orders := [A_filled], inflight := [[''A'']]\<rparr>))
   \<and> isTerminal (status (orders (initial\<lparr>orders := [A_filled], inflight := [[''A'']]\<rparr>) ! 0))
   \<and> \<not> reverts (order_id (orders (initial\<lparr>orders := [A_filled], inflight := [[''A'']]\<rparr>) ! 0))
          (Settle 0 [Fulfilled (Some \<lparr>order_id = ''A'', status = ''CANCELED'', payload = 10\<rparr>)])
   \<and> isTerminal (status (orders (fire
          (Settle 0 [Fulfilled (Some \<lparr>order_id = ''A'', status = ''CANCELED'', payload = 10\<rparr>)])
          (initial\<lparr>orders := [A_filled], inflight := [[''A'']]\<rparr>)) ! 0))"
proof -
  let ?w = "initial\<lparr>orders := [A_filled], inflight := [[''A'']]\<rparr> :: nat world"
  let ?e = "Settle 0 [Fulfilled (Some \<lparr>order_id = ''A'', status = ''CANCELED'', payload = 10::nat\<rparr>)]"
  have h1: "(0::nat) < length (orders ?w)" by simp
  have h2: "isTerminal (status (orders ?w ! 0))" by code_simp
  have h3: "\<not> reverts (order_id (orders ?w ! 0)) ?e" by code_simp
  from terminal_status_kept_unless_response_reverts [OF h1 h2 h3, where n = A_filled and h = 1]
    h1 h2 h3
  show ?thesis by simp
qed

text \<open>
  The store does not enforce that a status moves from non-terminal to terminal only.
  Two ticks overlap; the answer to the second, FILLED, is merged first, and the answer
  to the first, still SUBMITTED, is merged after it, over the terminal record.
\<close>

theorem terminal_status_reverted_by_late_response:
  "run [AddOrder A_submitted, Tick 1, Tick 1, Settle 1 [Fulfilled (Some A_filled)]] initial
     = Some \<lparr>orders = [A_filled], trackedOrderIds = {}, pollingInterval = Some 1,
         timers = [1], last_handle = 1, inflight = [[''A'']], sent = [''A'', ''A'']\<rparr>
   \<and> isTerminal (status A_filled)
   \<and> enabled (Settle 0 [Fulfilled (Some A_submitted)])
        \<lparr>orders = [A_filled], trackedOrderIds = {}, pollingInterval = Some 1,
         timers = [1], last_handle = 1, inflight = [[''A'']], sent = [''A'', ''A'']\<rparr>
   \<and> orders (fire (Settle 0 [Fulfilled (Some A_submitted)])
        \<lparr>orders = [A_filled], trackedOrderIds = {}, pollingInterval = Some 1,
         timers = [1], last_handle = 1, inflight = [[''A'']], sent = [''A'', ''A'']\<rparr>)
       = [A_submitted]
   \<and> \<not> isTerminal (status A_submitted)"
  by code_simp

subsection \<open>What a tick requests\<close>

lemma sent_fire:
  "sent (fire e w) = sent w @ (case e of Tick h \<Rightarrow> updatePromises w | _ \<Rightarrow> [])"
  by (cases e)
     (simp_all add: addOrder_def startPolling_def stopPolling_def setInterval_def
        clearInterval_def pollOrders_def pollOrders_settled_def updatePromises_def Let_def
        split: sum.splits)

lemma count_active:
  "distinct (map f xs) \<Longrightarrow> x \<in> set xs
     \<Longrightarrow> count_list (map f (filter P xs)) (f x) = (if P x then 1 else 0)"
proof (induction xs)
  case Nil
  then show ?case by simp
next
  case (Cons a xs)
  show ?case
  proof (cases "x = a")
    case True
    from Cons.prems(1) have "f a \<notin> set (map f (filter P xs))" by auto
    then have "count_list (map f (filter P xs)) (f a) = 0"
      by (simp only: count_list_0_iff not_False_eq_True)
    with True show ?thesis by simp
  next
    case False
    with Cons.prems have x: "x \<in> set xs" and d: "distinct (map f xs)"
      by auto
    from Cons.prems(1) have "f a \<notin> f ` set xs" by simp
    with x have "f x \<noteq> f a" by (metis imageI)
    with Cons.IH [OF d x] show ?thesis by simp
  qed
qed

lemma terminal_not_requested:
  assumes "distinct (map order_id (orders w))" and "i < length (orders w)"
    and "isTerminal (status (orders w ! i))"
  shows "order_id (orders w ! i) \<notin> set (updatePromises w)"
proof -
  from assms(2) have "orders w ! i \<in> set (orders w)" by simp
  from count_active [OF assms(1) this, of "\<lambda>o'. \<not> isTerminal (status o')"] assms(3)
  have "count_list (updatePromises w) (order_id (orders w ! i)) = 0"
    by (simp add: updatePromises_def activeOrders_def)
  then show ?thesis
    using count_list_0_iff [of "updatePromises w" "order_id (orders w ! i)"] by simp
qed

lemma terminal_never_requested:
  "run es w = Some w' \<Longrightarrow> distinct (map order_id (orders w)) \<Longrightarrow> i < length (orders w)
     \<Longrightarrow> isTerminal (status (orders w ! i))
     \<Longrightarrow> \<not> list_ex (reverts (order_id (orders w ! i))) es
     \<Longrightarrow> \<exists>xs. sent w' = sent w @ xs \<and> order_id (orders w ! i) \<notin> set xs"
proof (induction es arbitrary: w)
  case Nil
  then show ?case by simp
next
  case (Cons e es)
  let ?k = "order_id (orders w ! i)"
  let ?v = "fire e w"
  from Cons.prems(1) have r: "run es ?v = Some w'"
    by (simp split: if_splits)
  from Cons.prems(5) have ne: "\<not> reverts ?k e" and nes: "\<not> list_ex (reverts ?k) es"
    by simp_all
  have i': "i < length (orders ?v)"
    using Cons.prems(3) length_orders_fire [of w e] by simp
  have k': "order_id (orders ?v ! i) = ?k"
    by (rule id_nth_fire [OF Cons.prems(3)])
  have t': "isTerminal (status (orders ?v ! i))"
    by (rule terminal_fire [OF Cons.prems(3,4) ne])
  from Cons.IH [OF r distinct_fire [OF Cons.prems(2)] i' t'] nes k'
  obtain xs where xs: "sent w' = sent ?v @ xs" "?k \<notin> set xs"
    by auto
  have "?k \<notin> set (case e of Tick h \<Rightarrow> updatePromises w | _ \<Rightarrow> [])"
    using terminal_not_requested [OF Cons.prems(2,3,4)] by (cases e) simp_all
  with xs sent_fire [of e w] show ?case by auto
qed

text \<open>
  C2. A poll tick requests the status of exactly the cached orders whose status is not
  terminal, in the order of the cache: every non-terminal order once, no terminal order
  at all. An order whose status is terminal is in no request of any later tick for as
  long as no settled batch carries a non-terminal status for its id.
\<close>

theorem tick_requests_exactly_the_active_orders:
  assumes "run evs initial = Some w" and "enabled (Tick h) w"
  shows "sent (fire (Tick h) w) = sent w @ updatePromises w
       \<and> updatePromises w = map order_id (filter (\<lambda>o'. \<not> isTerminal (status o')) (orders w))
       \<and> (\<forall>o'\<in>set (orders w).
            count_list (updatePromises w) (order_id o') = (if isTerminal (status o') then 0 else 1))
       \<and> (i < length (orders w) \<and> isTerminal (status (orders w ! i))
            \<and> run evs' w = Some w' \<and> \<not> list_ex (reverts (order_id (orders w ! i))) evs'
          \<longrightarrow> order_id (orders w ! i) \<notin> set (drop (length (sent w)) (sent w')))"
proof -
  have d: "distinct (map order_id (orders w))"
    by (rule distinct_reachable [OF assms(1)])
  have "\<forall>o'\<in>set (orders w).
          count_list (updatePromises w) (order_id o') = (if isTerminal (status o') then 0 else 1)"
    using count_active [OF d, of _ "\<lambda>o'. \<not> isTerminal (status o')"]
    by (simp add: updatePromises_def activeOrders_def)
  moreover have "i < length (orders w) \<and> isTerminal (status (orders w ! i))
            \<and> run evs' w = Some w' \<and> \<not> list_ex (reverts (order_id (orders w ! i))) evs'
          \<longrightarrow> order_id (orders w ! i) \<notin> set (drop (length (sent w)) (sent w'))"
    using terminal_never_requested [of evs' w w' i] d by auto
  ultimately show ?thesis
    using sent_fire [of "Tick h" w] by (simp add: updatePromises_def activeOrders_def)
qed

theorem tick_requests_exactly_the_active_orders_witness:
  "run [AddOrder A_submitted, AddOrder B_filled] initial
     = Some \<lparr>orders = [A_submitted, B_filled], trackedOrderIds = {}, pollingInterval = Some 1,
         timers = [1], last_handle = 1, inflight = [], sent = []\<rparr>
   \<and> enabled (Tick 1)
        \<lparr>orders = [A_submitted, B_filled], trackedOrderIds = {}, pollingInterval = Some 1,
         timers = [1], last_handle = 1, inflight = [], sent = []\<rparr>
   \<and> sent (fire (Tick 1)
        \<lparr>orders = [A_submitted, B_filled], trackedOrderIds = {}, pollingInterval = Some 1,
         timers = [1], last_handle = 1, inflight = [], sent = []\<rparr>) = [''A'']
   \<and> isTerminal (status B_filled)
   \<and> run [Tick 1, Settle 0 [Fulfilled (Some A_submitted)], Tick 1]
        \<lparr>orders = [A_submitted, B_filled], trackedOrderIds = {}, pollingInterval = Some 1,
         timers = [1], last_handle = 1, inflight = [], sent = []\<rparr>
     = Some \<lparr>orders = [A_submitted, B_filled], trackedOrderIds = {}, pollingInterval = Some 1,
         timers = [1], last_handle = 1, inflight = [[''A'']], sent = [''A'', ''A'']\<rparr>
   \<and> \<not> list_ex (reverts ''B'') [Tick 1, Settle 0 [Fulfilled (Some A_submitted)], Tick 1]
   \<and> ''B'' \<notin> set (drop 0 [''A'', ''A''])"
proof -
  let ?w = "\<lparr>orders = [A_submitted, B_filled], trackedOrderIds = {}, pollingInterval = Some 1,
         timers = [1], last_handle = 1, inflight = [], sent = []\<rparr>"
  let ?w' = "\<lparr>orders = [A_submitted, B_filled], trackedOrderIds = {}, pollingInterval = Some 1,
         timers = [1], last_handle = 1, inflight = [[''A'']], sent = [''A'', ''A'']\<rparr>"
  let ?evs' = "[Tick 1, Settle 0 [Fulfilled (Some A_submitted)], Tick 1]"
  have r: "run [AddOrder A_submitted, AddOrder B_filled] initial = Some ?w"
    by code_simp
  have en: "enabled (Tick 1) ?w" by simp
  have u: "updatePromises ?w = [''A'']" by code_simp
  have t: "isTerminal (status B_filled)" by code_simp
  have r': "run ?evs' ?w = Some ?w'" by code_simp
  have nr: "\<not> list_ex (reverts ''B'') ?evs'" by code_simp
  from tick_requests_exactly_the_active_orders [OF r en, of 1 ?evs' ?w'] r en u t r' nr
  show ?thesis by (simp add: B_filled_def)
qed

text \<open>
  A record that has become terminal can be requested again: the late answer of an
  overlapping tick overwrites FILLED with SUBMITTED, and the next tick asks for the order.
\<close>

theorem terminal_order_requested_again:
  "run [AddOrder A_submitted, Tick 1, Tick 1, Settle 1 [Fulfilled (Some A_filled)]] initial
     = Some \<lparr>orders = [A_filled], trackedOrderIds = {}, pollingInterval = Some 1,
         timers = [1], last_handle = 1, inflight = [[''A'']], sent = [''A'', ''A'']\<rparr>
   \<and> isTerminal (status A_filled)
   \<and> run [Settle 0 [Fulfilled (Some A_submitted)], Tick 1]
        \<lparr>orders = [A_filled], trackedOrderIds = {}, pollingInterval = Some 1,
         timers = [1], last_handle = 1, inflight = [[''A'']], sent = [''A'', ''A'']\<rparr>
     = Some \<lparr>orders = [A_submitted], trackedOrderIds = {}, pollingInterval = Some 1,
         timers = [1], last_handle = 1, inflight = [[''A'']], sent = [''A'', ''A'', ''A'']\<rparr>
   \<and> order_id A_filled \<in> set (drop 2 [''A'', ''A'', ''A''])"
  by code_simp

subsection \<open>The idle store\<close>

lemma idle_fire:
  assumes "timers w = []" and "pollingInterval w = None"
    and "enabled e w" and "\<not> restarts e"
  shows "timers (fire e w) = [] \<and> pollingInterval (fire e w) = None \<and> sent (fire e w) = sent w"
proof (cases e)
  case StopPolling
  with assms(1,2) show ?thesis by (simp add: stopPolling_idle)
next
  case (Tick h)
  with assms(1,3) show ?thesis by simp
next
  case (Settle b rs)
  with assms(1,2) sent_fire [of e w] show ?thesis
    by (simp add: timer_settled)
qed (use assms(4) in simp_all)

lemma idle_run:
  "run es w = Some w' \<Longrightarrow> timers w = [] \<Longrightarrow> pollingInterval w = None
     \<Longrightarrow> \<not> list_ex restarts es
     \<Longrightarrow> timers w' = [] \<and> pollingInterval w' = None \<and> sent w' = sent w"
proof (induction es arbitrary: w)
  case Nil
  then show ?case by simp
next
  case (Cons e es)
  from Cons.prems(1) have en: "enabled e w" and r: "run es (fire e w) = Some w'"
    by (simp_all split: if_splits)
  from Cons.prems(4) have ne: "\<not> restarts e" and nes: "\<not> list_ex restarts es"
    by simp_all
  from idle_fire [OF Cons.prems(2,3) en ne] Cons.IH [OF r _ _ nes]
  show ?case by simp
qed

lemma empty_tick:
  assumes "one_timer (pollingInterval w) (timers w)" and "activeOrders w = []"
  shows "timers (pollOrders w) = [] \<and> pollingInterval (pollOrders w) = None
       \<and> sent (pollOrders w) = sent w"
  using one_timer_stopPolling [OF assms(1)] assms(2) sent_fire [of "Tick 0" w]
  by (simp add: pollOrders_def updatePromises_def)

text \<open>
  C4. When a poll tick finds no non-terminal order in the cache, it stops the polling
  timer and sends no request; from then on the host has no live timer of the store, so
  no tick fires and no status request is sent, whatever batches settle and however often
  stopPolling is called, until startPolling runs again. addOrder calls startPolling on
  every call; TradesPanel calls it directly when it mounts.
\<close>

theorem empty_tick_stops_until_startPolling:
  assumes "run evs initial = Some w" and "enabled (Tick h) w" and "activeOrders w = []"
    and "run evs' (fire (Tick h) w) = Some w'" and "\<not> list_ex restarts evs'"
  shows "pollingInterval (fire (Tick h) w) = None \<and> timers (fire (Tick h) w) = []
       \<and> sent (fire (Tick h) w) = sent w
       \<and> pollingInterval w' = None \<and> timers w' = [] \<and> sent w' = sent w"
proof -
  from empty_tick [OF one_timer_reachable [OF assms(1)] assms(3)]
  have e: "timers (fire (Tick h) w) = []" "pollingInterval (fire (Tick h) w) = None"
    "sent (fire (Tick h) w) = sent w"
    by simp_all
  from idle_run [OF assms(4) e(1,2) assms(5)] e show ?thesis by simp
qed

theorem empty_tick_stops_until_startPolling_witness:
  "run [AddOrder A_submitted, Tick 1, Settle 0 [Fulfilled (Some A_filled)]] initial
     = Some \<lparr>orders = [A_filled], trackedOrderIds = {}, pollingInterval = Some 1,
         timers = [1], last_handle = 1, inflight = [], sent = [''A'']\<rparr>
   \<and> enabled (Tick 1)
        \<lparr>orders = [A_filled], trackedOrderIds = {}, pollingInterval = Some 1,
         timers = [1], last_handle = 1, inflight = [], sent = [''A'']\<rparr>
   \<and> activeOrders
        \<lparr>orders = [A_filled], trackedOrderIds = {}, pollingInterval = Some 1,
         timers = [1], last_handle = 1, inflight = [], sent = [''A'']\<rparr> = []
   \<and> fire (Tick 1)
        \<lparr>orders = [A_filled], trackedOrderIds = {}, pollingInterval = Some 1,
         timers = [1], last_handle = 1, inflight = [], sent = [''A'']\<rparr>
     = \<lparr>orders = [A_filled], trackedOrderIds = {}, pollingInterval = None,
         timers = [], last_handle = 1, inflight = [], sent = [''A'']\<rparr>
   \<and> run [StopPolling, StopPolling]
        \<lparr>orders = [A_filled], trackedOrderIds = {}, pollingInterval = None,
         timers = [], last_handle = 1, inflight = [], sent = [''A'']\<rparr>
     = Some \<lparr>orders = [A_filled], trackedOrderIds = {}, pollingInterval = None,
         timers = [], last_handle = 1, inflight = [], sent = [''A'']\<rparr>
   \<and> \<not> list_ex restarts [StopPolling, StopPolling :: nat event]"
proof -
  let ?w = "\<lparr>orders = [A_filled], trackedOrderIds = {}, pollingInterval = Some 1,
         timers = [1], last_handle = 1, inflight = [], sent = [''A'']\<rparr>"
  let ?v = "\<lparr>orders = [A_filled], trackedOrderIds = {}, pollingInterval = None,
         timers = [], last_handle = 1, inflight = [], sent = [''A'']\<rparr>"
  have r: "run [AddOrder A_submitted, Tick 1, Settle 0 [Fulfilled (Some A_filled)]] initial
             = Some ?w"
    by code_simp
  have en: "enabled (Tick 1) ?w" by simp
  have a: "activeOrders ?w = []" by code_simp
  have f: "fire (Tick 1) ?w = ?v" by code_simp
  have r': "run [StopPolling, StopPolling] (fire (Tick 1) ?w) = Some ?v" by code_simp
  have n: "\<not> list_ex restarts [StopPolling, StopPolling :: nat event]" by simp
  from empty_tick_stops_until_startPolling [OF r en a r' n] r en a f r' n
  show ?thesis by simp
qed

text \<open>
  A status request is sent after an empty tick although addOrder is not called again:
  a late response makes the order non-terminal, startPolling is called directly, and the
  tick of the new timer requests the order.
\<close>

theorem request_after_empty_tick_without_addOrder:
  "run [AddOrder A_submitted, Tick 1, Tick 1, Settle 1 [Fulfilled (Some A_filled)]] initial
     = Some \<lparr>orders = [A_filled], trackedOrderIds = {}, pollingInterval = Some 1,
         timers = [1], last_handle = 1, inflight = [[''A'']], sent = [''A'', ''A'']\<rparr>
   \<and> enabled (Tick 1)
        \<lparr>orders = [A_filled], trackedOrderIds = {}, pollingInterval = Some 1,
         timers = [1], last_handle = 1, inflight = [[''A'']], sent = [''A'', ''A'']\<rparr>
   \<and> activeOrders
        \<lparr>orders = [A_filled], trackedOrderIds = {}, pollingInterval = Some 1,
         timers = [1], last_handle = 1, inflight = [[''A'']], sent = [''A'', ''A'']\<rparr> = []
   \<and> run [Settle 0 [Fulfilled (Some A_submitted)], StartPolling, Tick 2]
        (fire (Tick 1)
          \<lparr>orders = [A_filled], trackedOrderIds = {}, pollingInterval = Some 1,
           timers = [1], last_handle = 1, inflight = [[''A'']], sent = [''A'', ''A'']\<rparr>)
     = Some \<lparr>orders = [A_submitted], trackedOrderIds = {}, pollingInterval = Some 2,
         timers = [2], last_handle = 2, inflight = [[''A'']], sent = [''A'', ''A'', ''A'']\<rparr>"
  by code_simp

text \<open>
  C7. stopPolling cancels the timer only. It leaves the cached records and the batches in
  flight as they are, a batch in flight can settle after it as before, and its responses
  are merged into the cache exactly as they would have been without the stop.
\<close>

theorem stopPolling_leaves_requests_in_flight:
  "orders (stopPolling w) = orders w
   \<and> inflight (stopPolling w) = inflight w
   \<and> enabled (Settle b rs) (stopPolling w) = enabled (Settle b rs) w
   \<and> orders (fire (Settle b rs) (stopPolling w)) = orders (pollOrders_settled rs w)
   \<and> orders (fire (Settle b rs) (stopPolling w)) = orders (fire (Settle b rs) w)
   \<and> (forEach (orders w) rs = Inr d \<longrightarrow> orders (fire (Settle b rs) (stopPolling w)) = d)"
  by (simp add: stopPolling_def clearInterval_def pollOrders_settled_def split: sum.splits)

theorem stopPolling_leaves_requests_in_flight_witness:
  "forEach (orders (initial\<lparr>orders := [A_submitted], pollingInterval := Some 1, timers := [1],
        inflight := [[''A'']]\<rparr>)) [Fulfilled (Some A_filled)] = Inr [A_filled]
   \<and> orders (fire (Settle 0 [Fulfilled (Some A_filled)])
        (stopPolling (initial\<lparr>orders := [A_submitted], pollingInterval := Some 1,
           timers := [1], inflight := [[''A'']]\<rparr>))) = [A_filled]"
proof -
  let ?w = "initial\<lparr>orders := [A_submitted], pollingInterval := Some 1, timers := [1],
        inflight := [[''A'']]\<rparr>"
  have f: "forEach (orders ?w) [Fulfilled (Some A_filled)] = Inr [A_filled]"
    by code_simp
  have "forEach (orders ?w) [Fulfilled (Some A_filled)] = Inr [A_filled]
      \<longrightarrow> orders (fire (Settle 0 [Fulfilled (Some A_filled)]) (stopPolling ?w)) = [A_filled]"
    using stopPolling_leaves_requests_in_flight
      [of ?w 0 "[Fulfilled (Some A_filled)]" "[A_filled]"]
    by (elim conjE)
  with f show ?thesis by (intro conjI) (assumption, erule (1) mp)
qed

text \<open>
  A response in flight when stopPolling is called is applied to the cache when it
  arrives: the record of order A changes from SUBMITTED to FILLED after the stop.
\<close>

theorem response_applied_after_stopPolling:
  "run [AddOrder A_submitted, Tick 1, StopPolling] initial
     = Some \<lparr>orders = [A_submitted], trackedOrderIds = {}, pollingInterval = None,
         timers = [], last_handle = 1, inflight = [[''A'']], sent = [''A'']\<rparr>
   \<and> run [Settle 0 [Fulfilled (Some A_filled)]]
        \<lparr>orders = [A_submitted], trackedOrderIds = {}, pollingInterval = None,
         timers = [], last_handle = 1, inflight = [[''A'']], sent = [''A'']\<rparr>
     = Some \<lparr>orders = [A_filled], trackedOrderIds = {}, pollingInterval = None,
         timers = [], last_handle = 1, inflight = [], sent = [''A'']\<rparr>
   \<and> A_filled \<noteq> A_submitted"
  by code_simp

subsection \<open>addOrder and the timer\<close>

lemma addOrder_calls_startPolling:
  "addOrder n w = startPolling (w\<lparr>orders := orders (addOrder n w)\<rparr>)"
  by (simp add: addOrder_def orders_startPolling)

lemma activeOrders_addOrder:
  "isTerminal (status n) \<Longrightarrow> activeOrders w = [] \<Longrightarrow> activeOrders (addOrder n w) = []"
  by (simp add: activeOrders_def orders_addOrder)

lemma handle_addOrder_idle:
  "pollingInterval w = None \<Longrightarrow> pollingInterval (addOrder n w) = Some (Suc (last_handle w))"
  by (simp add: addOrder_def startPolling_def setInterval_def Let_def)

text \<open>
  C10. Every addOrder ends with the call of startPolling, whether the id is new or
  already cached and whatever the status of the record: after it the store holds the
  handle of the one live timer, a new timer when the store was idle. When the record is
  terminal and no cached order is non-terminal, the next tick finds no active order,
  sends no request, and stops the timer.
\<close>

theorem addOrder_always_starts_polling:
  assumes "run evs initial = Some w"
  shows "addOrder n w = startPolling (w\<lparr>orders := orders (addOrder n w)\<rparr>)
       \<and> (\<exists>h. pollingInterval (addOrder n w) = Some h \<and> timers (addOrder n w) = [h]
              \<and> enabled (Tick h) (addOrder n w)
              \<and> (isTerminal (status n) \<and> activeOrders w = []
                   \<longrightarrow> activeOrders (addOrder n w) = []
                       \<and> sent (fire (Tick h) (addOrder n w)) = sent w
                       \<and> inflight (fire (Tick h) (addOrder n w)) = inflight w
                       \<and> pollingInterval (fire (Tick h) (addOrder n w)) = None
                       \<and> timers (fire (Tick h) (addOrder n w)) = []))
       \<and> (pollingInterval w = None
            \<longrightarrow> pollingInterval (addOrder n w) = Some (Suc (last_handle w)))"
proof -
  let ?v = "addOrder n w"
  have t: "one_timer (pollingInterval w) (timers w)"
    by (rule one_timer_reachable [OF assms])
  have tv: "one_timer (pollingInterval ?v) (timers ?v)"
    using one_timer_fire [OF t, of "AddOrder n"] by simp
  from one_timer_startPolling [OF t] timer_addOrder [of n w]
  obtain h where h: "pollingInterval ?v = Some h"
    by auto
  with tv have th: "timers ?v = [h]" by simp
  have sv: "sent ?v = sent w" "inflight ?v = inflight w"
    using sent_fire [of "AddOrder n" w] inflight_fire [of "AddOrder n" w] by simp_all
  have "isTerminal (status n) \<and> activeOrders w = []
          \<longrightarrow> activeOrders ?v = [] \<and> sent (fire (Tick h) ?v) = sent w
              \<and> inflight (fire (Tick h) ?v) = inflight w
              \<and> pollingInterval (fire (Tick h) ?v) = None \<and> timers (fire (Tick h) ?v) = []"
  proof
    assume a: "isTerminal (status n) \<and> activeOrders w = []"
    then have e: "activeOrders ?v = []"
      by (simp add: activeOrders_addOrder)
    from empty_tick [OF tv e] sv e inflight_fire [of "Tick h" ?v]
    show "activeOrders ?v = [] \<and> sent (fire (Tick h) ?v) = sent w
              \<and> inflight (fire (Tick h) ?v) = inflight w
              \<and> pollingInterval (fire (Tick h) ?v) = None \<and> timers (fire (Tick h) ?v) = []"
      by simp
  qed
  with h th addOrder_calls_startPolling [of n w] handle_addOrder_idle [of w n]
  show ?thesis by simp
qed

theorem addOrder_always_starts_polling_witness:
  "run [AddOrder A_submitted, Tick 1, Settle 0 [Fulfilled (Some A_filled)], Tick 1] initial
     = Some \<lparr>orders = [A_filled], trackedOrderIds = {}, pollingInterval = None,
         timers = [], last_handle = 1, inflight = [], sent = [''A'']\<rparr>
   \<and> isTerminal (status B_filled)
   \<and> activeOrders \<lparr>orders = [A_filled], trackedOrderIds = {}, pollingInterval = None,
         timers = [], last_handle = 1, inflight = [], sent = [''A'']\<rparr> = []
   \<and> addOrder B_filled \<lparr>orders = [A_filled], trackedOrderIds = {}, pollingInterval = None,
         timers = [], last_handle = 1, inflight = [], sent = [''A'']\<rparr>
     = \<lparr>orders = [A_filled, B_filled], trackedOrderIds = {}, pollingInterval = Some 2,
         timers = [2], last_handle = 2, inflight = [], sent = [''A'']\<rparr>
   \<and> fire (Tick 2) \<lparr>orders = [A_filled, B_filled], trackedOrderIds = {},
         pollingInterval = Some 2, timers = [2], last_handle = 2, inflight = [],
         sent = [''A'']\<rparr>
     = \<lparr>orders = [A_filled, B_filled], trackedOrderIds = {}, pollingInterval = None,
         timers = [], last_handle = 2, inflight = [], sent = [''A'']\<rparr>"
proof -
  let ?w = "\<lparr>orders = [A_filled], trackedOrderIds = {}, pollingInterval = None,
         timers = [], last_handle = 1, inflight = [], sent = [''A'']\<rparr>"
  have r: "run [AddOrder A_submitted, Tick 1, Settle 0 [Fulfilled (Some A_filled)], Tick 1]
             initial = Some ?w"
    by code_simp
  have t: "isTerminal (status B_filled)" by code_simp
  have a: "activeOrders ?w = []" by code_simp
  have v: "addOrder B_filled ?w
     = \<lparr>orders = [A_filled, B_filled], trackedOrderIds = {}, pollingInterval = Some 2,
         timers = [2], last_handle = 2, inflight = [], sent = [''A'']\<rparr>"
    by code_simp
  have f: "fire (Tick 2) \<lparr>orders = [A_filled, B_filled], trackedOrderIds = {},
         pollingInterval = Some 2, timers = [2], last_handle = 2, inflight = [],
         sent = [''A'']\<rparr>
     = \<lparr>orders = [A_filled, B_filled], trackedOrderIds = {}, pollingInterval = None,
         timers = [], last_handle = 2, inflight = [], sent = [''A'']\<rparr>"
    by code_simp
  from addOrder_always_starts_polling [OF r, of B_filled] r t a v f
  show ?thesis by simp
qed

text \<open>
  With a non-terminal order cached, adding a terminal record does not lead to an empty
  tick: the timer was running already, and the next tick requests order A and leaves the
  timer running.
\<close>

theorem terminal_addOrder_with_active_order_cached:
  "run [AddOrder A_submitted] initial
     = Some \<lparr>orders = [A_submitted], trackedOrderIds = {}, pollingInterval = Some 1,
         timers = [1], last_handle = 1, inflight = [], sent = []\<rparr>
   \<and> isTerminal (status B_filled)
   \<and> run [AddOrder B_filled, Tick 1]
        \<lparr>orders = [A_submitted], trackedOrderIds = {}, pollingInterval = Some 1,
         timers = [1], last_handle = 1, inflight = [], sent = []\<rparr>
     = Some \<lparr>orders = [A_submitted, B_filled], trackedOrderIds = {}, pollingInterval = Some 1,
         timers = [1], last_handle = 1, inflight = [[''A'']], sent = [''A'']\<rparr>"
  by code_simp

end
